theory Spec2Isabelle
  imports Complex_Main "HOL-Library.Word"
begin

section \<open>Data model\<close>

text \<open>
  The scheduling core of the flashcard trainer (\<^verbatim>\<open>src/algorithm.ts\<close>) works on
  JavaScript objects: \<^verbatim>\<open>Map\<close>s from bucket numbers to \<^verbatim>\<open>Set\<close>s of flashcards,
  arrays of such sets, and flashcards compared by identity. Sets are objects that several
  maps and arrays may refer to, and \<^verbatim>\<open>update\<close> changes them in place, so the sets live in
  an explicit store and maps and arrays hold their addresses.
\<close>

subsection \<open>Strings and flashcards\<close>

text \<open>
  A JavaScript string is a sequence of UTF-16 code units; \<^verbatim>\<open>length\<close>, \<^verbatim>\<open>substring\<close> and
  \<^verbatim>\<open>repeat\<close> count code units.
\<close>

type_synonym js_string = "16 word list"

text \<open>
  Modelled from the spec: the class \<^verbatim>\<open>Flashcard\<close> of \<^verbatim>\<open>src/flashcards.ts\<close>, which is not
  among the sources. The tests construct it as \<^verbatim>\<open>new Flashcard(front, back, hint, tags)\<close>;
  the spec gives it the attributes front, back and optional tag metadata.
  (\<open>back\<close> is an Isar command name, so the field is \<open>back_text\<close>.)
\<close>

record Flashcard =
  front :: js_string
  back_text :: js_string
  hint :: js_string
  tags :: "js_string list"

text \<open>
  Modelled from the spec: the enumeration \<^verbatim>\<open>AnswerDifficulty\<close> of \<^verbatim>\<open>src/flashcards.ts\<close>,
  one of the three values Wrong, Hard, Easy. The enumeration is closed, so the
  \<^verbatim>\<open>default\<close> branch of the \<^verbatim>\<open>switch\<close> in \<^verbatim>\<open>update\<close> has no value to run on.
\<close>

datatype AnswerDifficulty = Wrong | Hard | Easy

subsection \<open>The store of Set objects\<close>

text \<open>
  A \<^verbatim>\<open>Set<Flashcard>\<close> keeps its members without duplicates in insertion order: a list.
  Flashcards are set members by identity, so the member type \<open>'c\<close> stands for references
  to flashcard objects. The store is the list of all Set objects allocated so far; the
  address of a set is its position, and \<^verbatim>\<open>new Set()\<close> appends an empty set. A reference
  held by a program is always the address of an allocated set.
\<close>

type_synonym addr = nat
type_synonym 'c heap = "'c list list"

definition new_Set :: "'c heap \<Rightarrow> 'c heap \<times> addr" where
  "new_Set h = (h @ [[]], length h)"

definition set_has :: "'c heap \<Rightarrow> addr \<Rightarrow> 'c \<Rightarrow> bool" where
  "set_has h s x = (x \<in> set (h ! s))"

definition set_size :: "'c heap \<Rightarrow> addr \<Rightarrow> nat" where
  "set_size h s = length (h ! s)"

definition add_member :: "'c list \<Rightarrow> 'c \<Rightarrow> 'c list" where
  "add_member xs x = (if x \<in> set xs then xs else xs @ [x])"

definition set_add :: "'c heap \<Rightarrow> addr \<Rightarrow> 'c \<Rightarrow> 'c heap" where
  "set_add h s x = h[s := add_member (h ! s) x]"

definition set_delete :: "'c heap \<Rightarrow> addr \<Rightarrow> 'c \<Rightarrow> 'c heap" where
  "set_delete h s x = h[s := removeAll x (h ! s)]"

subsection \<open>Map objects\<close>

text \<open>
  A \<^verbatim>\<open>Map\<close> iterates in insertion order and holds each key once: an association list
  with distinct keys. \<^verbatim>\<open>set\<close> on a present key replaces the value in place, on an absent
  key appends the entry. A \<^verbatim>\<open>BucketMap\<close> is a \<^verbatim>\<open>Map<number, Set<Flashcard>>\<close>; bucket numbers
  are non-negative integers.
\<close>

type_synonym ('k, 'v) js_map = "('k \<times> 'v) list"
type_synonym BucketMap = "(nat, addr) js_map"

fun map_get :: "('k, 'v) js_map \<Rightarrow> 'k \<Rightarrow> 'v option" where
  "map_get [] k = None"
| "map_get ((k', v) # es) k = (if k' = k then Some v else map_get es k)"

fun map_set :: "('k, 'v) js_map \<Rightarrow> 'k \<Rightarrow> 'v \<Rightarrow> ('k, 'v) js_map" where
  "map_set [] k v = [(k, v)]"
| "map_set ((k', v') # es) k v = (if k' = k then (k, v) # es else (k', v') # map_set es k v)"

fun map_delete :: "('k, 'v) js_map \<Rightarrow> 'k \<Rightarrow> ('k, 'v) js_map" where
  "map_delete [] k = []"
| "map_delete ((k', v') # es) k = (if k' = k then map_delete es k else (k', v') # map_delete es k)"

definition map_keys :: "('k, 'v) js_map \<Rightarrow> 'k list" where
  "map_keys m = map fst m"

subsection \<open>Numbers\<close>

text \<open>
  A \<^verbatim>\<open>number\<close> is an IEEE-754 double. Bucket numbers and day numbers are non-negative
  integers, modelled as naturals; the integers that are number values are those with at
  most 53 significant bits. Up to \<open>2 ^ 53\<close> every integer is one, and sums and differences
  are exact; beyond, the result of an addition or subtraction is the exact result rounded
  to the nearest number value, ties to the one with an even significand.

  \<open>ulp_exp n\<close> is the number of low bits that do not fit into 53 significant bits.
\<close>

function ulp_exp :: "nat \<Rightarrow> nat" where
  "ulp_exp n = (if n < 2 ^ 53 then 0 else 1 + ulp_exp (n div 2))"
  by pat_completeness auto
termination
  by (relation "measure id") auto

declare ulp_exp.simps [simp del]

definition round_double :: "nat \<Rightarrow> nat" where
  "round_double n =
     (let e = ulp_exp n; q = n div 2 ^ e; r = n mod 2 ^ e
      in if 2 * r < 2 ^ e \<or> (2 * r = 2 ^ e \<and> even q) then q * 2 ^ e else (q + 1) * 2 ^ e)"

text \<open>
  \<^verbatim>\<open>n + 1\<close> and \<^verbatim>\<open>n - 1\<close> on a non-negative integer number \<open>n\<close>; the difference is
  \<open>-1\<close> for \<open>n = 0\<close>.
\<close>

definition js_plus_one :: "nat \<Rightarrow> nat" where
  "js_plus_one n = round_double (n + 1)"

definition js_minus_one :: "nat \<Rightarrow> int" where
  "js_minus_one n = (if n = 0 then - 1 else int (round_double (n - 1)))"

section \<open>Hint generation\<close>

text \<open>
  \<^verbatim>\<open>getHint\<close>: the first half of the front text, rounded up, followed by one underscore
  for every remaining code unit. \<^verbatim>\<open>Math.ceil(card.front.length / 2)\<close> is the ceiling of
  the quotient; \<^verbatim>\<open>substring(0, n)\<close> is \<open>take n\<close> and \<^verbatim>\<open>"_".repeat(n)\<close> is \<open>replicate n\<close>.
\<close>

definition underscore :: "16 word" where
  "underscore = 0x5F"

definition getHint :: "Flashcard \<Rightarrow> js_string" where
  "getHint card' =
     (if front card' = [] \<or> length (front card') = 0 then []
      else
        let hintLength = nat \<lceil>real (length (front card')) / 2\<rceil>;
            shown = take hintLength (front card');
            hidden = replicate (length (front card') - hintLength) underscore
        in shown @ hidden)"

section \<open>Bucket transition\<close>

text \<open>
  \<^verbatim>\<open>update\<close> starts from \<^verbatim>\<open>new Map(buckets)\<close>: a new Map object with the entries of the
  argument, in the same order, holding the same Set references. The argument Map object
  is not touched afterwards, so Map objects are values here; the Set objects they refer
  to are shared with the caller and are read and written through the store.

  The scan over \<^verbatim>\<open>newBuckets.entries()\<close> stops at the first entry whose set has the card.
\<close>

fun find_bucket :: "'c heap \<Rightarrow> BucketMap \<Rightarrow> 'c \<Rightarrow> nat option" where
  "find_bucket h [] card' = None"
| "find_bucket h ((bucketNum, cards) # es) card' =
     (if set_has h cards card' then Some bucketNum else find_bucket h es card')"

text \<open>
  Reading a property of \<^verbatim>\<open>undefined\<close> throws a \<^verbatim>\<open>TypeError\<close>; it is the only way
  \<^verbatim>\<open>update\<close> can fail, at \<^verbatim>\<open>newBuckets.get(currentBucket)!.delete(card)\<close>.
\<close>

datatype js_error = TypeError

text \<open>
  \<^verbatim>\<open>currentBucket + 1\<close> and \<^verbatim>\<open>currentBucket - 1\<close> are sums of numbers, rounded beyond
  \<open>2 ^ 53\<close>; the difference may be \<open>-1\<close>, which \<^verbatim>\<open>Math.max(0, _)\<close> turns into 0.
  A Set object is truthy, so \<^verbatim>\<open>newBuckets.get(newBucket) || new Set()\<close> allocates only
  when the key is absent.
\<close>

definition update ::
  "'c heap \<Rightarrow> BucketMap \<Rightarrow> 'c \<Rightarrow> AnswerDifficulty \<Rightarrow> js_error + ('c heap \<times> BucketMap)" where
  "update h buckets card' difficulty =
     (let newBuckets = buckets in
      case find_bucket h newBuckets card' of
        None \<Rightarrow> Inr (h, newBuckets)
      | Some currentBucket \<Rightarrow>
          (case map_get newBuckets currentBucket of
             None \<Rightarrow> Inl TypeError
           | Some currentCards \<Rightarrow>
               let h1 = set_delete h currentCards card';
                   newBuckets1 = (if set_size h1 currentCards = 0
                                  then map_delete newBuckets currentBucket else newBuckets);
                   newBucket = (case difficulty of
                                  Easy \<Rightarrow> js_plus_one currentBucket
                                | Hard \<Rightarrow> nat (max 0 (js_minus_one currentBucket))
                                | Wrong \<Rightarrow> 0);
                   (h2, newCards) = (case map_get newBuckets1 newBucket of
                                       Some s \<Rightarrow> (h1, s)
                                     | None \<Rightarrow> new_Set h1);
                   h3 = set_add h2 newCards card'
               in Inr (h3, map_set newBuckets1 newBucket newCards)))"

section \<open>Representation conversion\<close>

text \<open>
  A JavaScript array is a list of slots, each holding a value or nothing (a hole, read as
  \<^verbatim>\<open>undefined\<close>). Assigning at an index below the length replaces the slot; assigning at
  or beyond the length extends the array, leaving holes in between.
\<close>

type_synonym 'a js_array = "'a option list"

definition array_set :: "'a js_array \<Rightarrow> nat \<Rightarrow> 'a \<Rightarrow> 'a js_array" where
  "array_set xs i v =
     (if i < length xs then xs[i := Some v]
      else xs @ replicate (i - length xs) None @ [Some v])"

text \<open>The first loop of \<^verbatim>\<open>toBucketSets\<close>: the largest key, starting from 0.\<close>

fun lastbucket_loop :: "nat list \<Rightarrow> nat \<Rightarrow> nat" where
  "lastbucket_loop [] lastbucket = lastbucket"
| "lastbucket_loop (number # ks) lastbucket =
     lastbucket_loop ks (if number \<ge> lastbucket then number else lastbucket)"

text \<open>The second loop: a new empty set at every index \<open>0 .. lastbucket\<close>.\<close>

function fill_loop ::
  "nat \<Rightarrow> nat \<Rightarrow> 'c heap \<Rightarrow> addr js_array \<Rightarrow> 'c heap \<times> addr js_array" where
  "fill_loop i lastbucket h array =
     (if i \<le> lastbucket
      then (let (h', s) = new_Set h in fill_loop (i + 1) lastbucket h' (array_set array i s))
      else (h, array))"
  by pat_completeness auto
termination
  by (relation "measure (\<lambda>(i, lastbucket, h, array). Suc lastbucket - i)") auto

text \<open>The third loop: every entry of the map is stored at the index of its key.\<close>

fun assign_loop :: "BucketMap \<Rightarrow> addr js_array \<Rightarrow> addr js_array" where
  "assign_loop [] array = array"
| "assign_loop (bucket # bs) array = assign_loop bs (array_set array (fst bucket) (snd bucket))"

definition toBucketSets :: "'c heap \<Rightarrow> BucketMap \<Rightarrow> 'c heap \<times> addr js_array" where
  "toBucketSets h buckets =
     (let lastbucket = lastbucket_loop (map_keys buckets) 0;
          (h', array) = fill_loop 0 lastbucket h []
      in (h', assign_loop buckets array))"

section \<open>Due-set selection\<close>

text \<open>
  \<^verbatim>\<open>day + 1\<close> is a sum of numbers, rounded beyond \<open>2 ^ 53\<close>. The remainder \<^verbatim>\<open>%\<close> of two
  numbers is exact. \<^verbatim>\<open>Math.pow(2, i)\<close> is exact up to \<open>i = 1023\<close> and infinite beyond, where
  \<^verbatim>\<open>n % Infinity\<close> is \<open>n\<close>, as \<open>n mod 2 ^ i\<close> is for a number \<open>n\<close>, which is below \<open>2 ^ 1024\<close>.
  The bucket index counts array slots and stays far below \<open>2 ^ 53\<close>.
  The result set is a new object that nothing else refers to; \<^verbatim>\<open>practice\<close> returns its
  members.
\<close>

fun forEach_add :: "'c list \<Rightarrow> 'c list \<Rightarrow> 'c list" where
  "forEach_add [] practiceCards = practiceCards"
| "forEach_add (card' # cs) practiceCards = forEach_add cs (add_member practiceCards card')"

function practice_loop ::
  "'c heap \<Rightarrow> addr js_array \<Rightarrow> nat \<Rightarrow> nat \<Rightarrow> 'c list \<Rightarrow> 'c list" where
  "practice_loop h buckets dayNumber bucketIndex practiceCards =
     (if bucketIndex < length buckets
      then practice_loop h buckets dayNumber (bucketIndex + 1)
             (case buckets ! bucketIndex of
                Some s \<Rightarrow>
                  if dayNumber mod 2 ^ bucketIndex = 0
                  then forEach_add (h ! s) practiceCards else practiceCards
              | None \<Rightarrow> practiceCards)
      else practiceCards)"
  by pat_completeness auto
termination
  by (relation "measure (\<lambda>(h, buckets, dayNumber, bucketIndex, practiceCards).
                           length buckets - bucketIndex)") auto

definition practice :: "'c heap \<Rightarrow> addr js_array \<Rightarrow> nat \<Rightarrow> 'c list" where
  "practice h buckets day =
     (let dayNumber = js_plus_one day in practice_loop h buckets dayNumber 0 [])"

section \<open>Progress analysis\<close>

text \<open>
  A history entry is an object with the fields \<^verbatim>\<open>card\<close> (a flashcard reference) and
  \<^verbatim>\<open>difficulty\<close>; \<open>card\<close> is the cardinality of HOL, so the field is \<open>card_ref\<close>.
\<close>

record 'c HistoryEntry =
  card_ref :: 'c
  difficulty :: AnswerDifficulty

text \<open>
  The report. \<^verbatim>\<open>successCount / history.length\<close> is the quotient of two integers; the
  model keeps the exact quotient, of which the program computes the nearest double.
\<close>

record 'c Progress =
  totalCards :: nat
  cardsByBucket :: "(nat, nat) js_map"
  successRate :: real
  hardestCards :: "'c list"

fun count_loop ::
  "'c heap \<Rightarrow> BucketMap \<Rightarrow> nat \<Rightarrow> (nat, nat) js_map \<Rightarrow> nat \<times> (nat, nat) js_map" where
  "count_loop h [] totalCards' cardsByBucket' = (totalCards', cardsByBucket')"
| "count_loop h ((bucket, cards) # es) totalCards' cardsByBucket' =
     (let count = set_size h cards
      in count_loop h es (totalCards' + count) (map_set cardsByBucket' bucket count))"

fun success_loop :: "'c HistoryEntry list \<Rightarrow> nat \<Rightarrow> nat" where
  "success_loop [] successCount = successCount"
| "success_loop (entry # es) successCount =
     success_loop es
       (if difficulty entry = Easy \<or> difficulty entry = Hard
        then successCount + 1 else successCount)"

text \<open>\<^verbatim>\<open>wrongCounts.get(entry.card) || 0\<close> is the stored count, or 0 for an absent card.\<close>

fun wrong_loop :: "'c HistoryEntry list \<Rightarrow> ('c, nat) js_map \<Rightarrow> ('c, nat) js_map" where
  "wrong_loop [] wrongCounts = wrongCounts"
| "wrong_loop (entry # es) wrongCounts =
     wrong_loop es
       (if difficulty entry = Wrong
        then (let count = (case map_get wrongCounts (card_ref entry) of
                             Some n \<Rightarrow> n | None \<Rightarrow> 0)
              in map_set wrongCounts (card_ref entry) (count + 1))
        else wrongCounts)"

text \<open>
  \<^verbatim>\<open>Array.prototype.sort\<close> with a comparator is a stable sort (ECMAScript 2019):
  elements that compare equal keep their order. The comparator of \<^verbatim>\<open>computeProgress\<close>
  orders by a number, so the result of the sort is determined; it is computed here by
  a stable insertion sort.
\<close>

fun sort_insert :: "('a \<Rightarrow> 'a \<Rightarrow> int) \<Rightarrow> 'a \<Rightarrow> 'a list \<Rightarrow> 'a list" where
  "sort_insert cmp x [] = [x]"
| "sort_insert cmp x (y # ys) =
     (if cmp x y \<le> 0 then x # y # ys else y # sort_insert cmp x ys)"

definition array_sort :: "('a \<Rightarrow> 'a \<Rightarrow> int) \<Rightarrow> 'a list \<Rightarrow> 'a list" where
  "array_sort cmp xs = foldr (sort_insert cmp) xs []"

definition computeProgress ::
  "'c heap \<Rightarrow> BucketMap \<Rightarrow> 'c HistoryEntry list \<Rightarrow> 'c Progress" where
  "computeProgress h buckets history =
     (let (totalCards', cardsByBucket') = count_loop h buckets 0 [];
          successCount = success_loop history 0;
          successRate' = (if length history > 0
                          then real successCount / real (length history) else 0);
          wrongCounts = wrong_loop history [];
          hardestCards' =
            map fst (take 3 (array_sort (\<lambda>a b. int (snd b) - int (snd a)) wrongCounts))
      in \<lparr>totalCards = totalCards', cardsByBucket = cardsByBucket',
          successRate = successRate', hardestCards = hardestCards'\<rparr>)"

section \<open>Well-formed bucket maps\<close>

text \<open>
  A Map object has each key once, and the references it holds are addresses of allocated
  sets.
\<close>

definition valid_buckets :: "'c heap \<Rightarrow> BucketMap \<Rightarrow> bool" where
  "valid_buckets h m = (distinct (map fst m) \<and> list_all (\<lambda>(k, s). s < length h) m)"

text \<open>Every bucket has a Set object of its own: no two keys hold the same reference.\<close>

definition unshared_sets :: "BucketMap \<Rightarrow> bool" where
  "unshared_sets m = distinct (map snd m)"

text \<open>The invariant of the sparse map: no stored set is empty.\<close>

definition no_empty_buckets :: "'c heap \<Rightarrow> BucketMap \<Rightarrow> bool" where
  "no_empty_buckets h m = list_all (\<lambda>(k, s). set_size h s \<noteq> 0) m"

text \<open>The cards of bucket \<open>k\<close>: the members of the set stored under \<open>k\<close>, none if \<open>k\<close> is absent.\<close>

definition bucket_cards :: "'c heap \<Rightarrow> BucketMap \<Rightarrow> nat \<Rightarrow> 'c set" where
  "bucket_cards h m k = (case map_get m k of Some s \<Rightarrow> set (h ! s) | None \<Rightarrow> {})"

text \<open>The cards of slot \<open>i\<close> of a dense bucket array: none for a hole or beyond the end.\<close>

definition slot_cards :: "'c heap \<Rightarrow> addr js_array \<Rightarrow> nat \<Rightarrow> 'c set" where
  "slot_cards h buckets i =
     (if i < length buckets
      then (case buckets ! i of Some s \<Rightarrow> set (h ! s) | None \<Rightarrow> {}) else {})"

section \<open>Notions of the progress report\<close>

text \<open>
  The words of the report's description: how often a card was judged Wrong, the position
  of its first entry judged Wrong, and the position of its first entry of any judgment.
\<close>

definition wrong_count :: "'c HistoryEntry list \<Rightarrow> 'c \<Rightarrow> nat" where
  "wrong_count history c = length (filter (\<lambda>e. card_ref e = c \<and> difficulty e = Wrong) history)"

definition first_wrong :: "'c HistoryEntry list \<Rightarrow> 'c \<Rightarrow> nat" where
  "first_wrong history c
     = length (takeWhile (\<lambda>e. \<not> (card_ref e = c \<and> difficulty e = Wrong)) history)"

definition first_occurrence :: "'c HistoryEntry list \<Rightarrow> 'c \<Rightarrow> nat" where
  "first_occurrence history c = length (takeWhile (\<lambda>e. card_ref e \<noteq> c) history)"

section \<open>Properties of hint generation\<close>

lemma ceil_half: "nat \<lceil>real n / 2\<rceil> = (n + 1) div 2"
proof -
  have "real n / 2 = real_of_int (int n) / real_of_int 2"
    by simp
  then have "\<lceil>real n / 2\<rceil> = - ((- int n) div 2)"
    by (simp only: ceiling_divide_eq_div)
  also have "\<dots> = (int n + 1) div 2"
    by linarith
  finally show ?thesis
    by (simp add: nat_div_distrib nat_add_distrib)
qed

lemma ceil_half_le: "nat \<lceil>real n / 2\<rceil> \<le> n"
  by (simp add: ceil_half)

text \<open>
  Claim C8. For every flashcard the hint has the length of the front text; its first
  \<open>ceil (len / 2)\<close> code units are those of the front text and the remaining
  \<open>len - ceil (len / 2)\<close> are underscores; an empty front gives the empty string and a
  front of one code unit is returned as it is.
\<close>

theorem getHint_reveals_first_half:
  "length (getHint c) = length (front c)
   \<and> take (nat \<lceil>real (length (front c)) / 2\<rceil>) (getHint c)
       = take (nat \<lceil>real (length (front c)) / 2\<rceil>) (front c)
   \<and> drop (nat \<lceil>real (length (front c)) / 2\<rceil>) (getHint c)
       = replicate (length (front c) - nat \<lceil>real (length (front c)) / 2\<rceil>) underscore
   \<and> getHint (c\<lparr>front := []\<rparr>) = []
   \<and> getHint (c\<lparr>front := [x]\<rparr>) = [x]"
proof -
  let ?n = "length (front c)"
  let ?k = "nat \<lceil>real ?n / 2\<rceil>"
  have k: "?k \<le> ?n" by (rule ceil_half_le)
  have len: "length (getHint c) = ?n"
    using k by (simp add: getHint_def Let_def)
  have shown: "take ?k (getHint c) = take ?k (front c)"
    using k by (simp add: getHint_def Let_def)
  have hidden: "drop ?k (getHint c) = replicate (?n - ?k) underscore"
    using k by (simp add: getHint_def Let_def)
  have empty: "getHint (c\<lparr>front := []\<rparr>) = []"
    by (simp add: getHint_def)
  have "nat \<lceil>(1::real) / 2\<rceil> = 1"
    using ceil_half [of 1] by simp
  then have one: "getHint (c\<lparr>front := [x]\<rparr>) = [x]"
    by (simp add: getHint_def Let_def)
  from len shown hidden empty one show ?thesis by blast
qed

section \<open>Number arithmetic in the exact range\<close>

lemma ulp_exp_small: "n < 2 ^ 53 \<Longrightarrow> ulp_exp n = 0"
  by (subst ulp_exp.simps) simp

lemma ulp_exp_large: "2 ^ 53 \<le> n \<Longrightarrow> ulp_exp n = Suc (ulp_exp (n div 2))"
  by (subst ulp_exp.simps) simp

lemmas number_eval = js_plus_one_def js_minus_one_def round_double_def Let_def
  ulp_exp_small ulp_exp_large

lemma round_double_exact: "n \<le> 2 ^ 53 \<Longrightarrow> round_double n = n"
proof (cases "n < 2 ^ 53")
  case True
  then show ?thesis
    by (simp add: round_double_def ulp_exp_small)
next
  case False
  assume "n \<le> 2 ^ 53"
  with False have n: "n = 9007199254740992" by simp
  show ?thesis
    unfolding n by (simp add: number_eval)
qed

lemma js_plus_one_exact: "n < 2 ^ 53 \<Longrightarrow> js_plus_one n = n + 1"
  by (simp add: js_plus_one_def round_double_exact)

lemma js_minus_one_exact: "n \<le> 2 ^ 53 \<Longrightarrow> js_minus_one n = int n - 1"
  by (auto simp: js_minus_one_def round_double_exact)

section \<open>Maps and the store\<close>

text \<open>Lookups after \<^verbatim>\<open>set\<close> and \<^verbatim>\<open>delete\<close>, the keys they leave, and what the scan finds.\<close>

lemma map_get_map_delete: "map_get (map_delete m k) k' = (if k' = k then None else map_get m k')"
  by (induction m) auto

lemma map_get_map_set: "map_get (map_set m k v) k' = (if k' = k then Some v else map_get m k')"
  by (induction m) auto

lemma map_get_Some_mem: "map_get m k = Some v \<Longrightarrow> (k, v) \<in> set m"
  by (induction m) (auto split: if_splits)

lemma map_get_None_iff: "map_get m k = None \<longleftrightarrow> k \<notin> fst ` set m"
  by (induction m) (auto split: if_splits)

lemma keys_map_delete: "map fst (map_delete m k) = removeAll k (map fst m)"
  by (induction m) auto

lemma distinct_map_delete: "distinct (map fst m) \<Longrightarrow> distinct (map fst (map_delete m k))"
  by (simp add: keys_map_delete distinct_removeAll)

lemma keys_map_set:
  "map fst (map_set m k v) = (if k \<in> set (map fst m) then map fst m else map fst m @ [k])"
  by (induction m) (auto simp: rev_image_eqI)

lemma distinct_map_set: "distinct (map fst m) \<Longrightarrow> distinct (map fst (map_set m k v))"
  by (simp add: keys_map_set)

lemma mem_map_get: "distinct (map fst m) \<Longrightarrow> (k, v) \<in> set m \<Longrightarrow> map_get m k = Some v"
  by (induction m) (auto simp: rev_image_eqI)

lemma find_bucket_None: "find_bucket h m c = None \<longleftrightarrow> (\<forall>(k, s) \<in> set m. c \<notin> set (h ! s))"
  by (induction m) (auto simp: set_has_def split: if_splits)

lemma find_bucket_Some_mem:
  "find_bucket h m c = Some b \<Longrightarrow> \<exists>s. (b, s) \<in> set m \<and> c \<in> set (h ! s)"
  by (induction m) (auto simp: set_has_def split: if_splits)

lemma find_bucket_Some_get:
  assumes "distinct (map fst m)" "find_bucket h m c = Some b"
  shows "\<exists>s. map_get m b = Some s \<and> c \<in> set (h ! s)"
  using find_bucket_Some_mem [OF assms(2)] mem_map_get [OF assms(1)] by blast

lemma unshared_inj:
  assumes "distinct (map snd m)" "map_get m k = Some s" "map_get m k' = Some s"
  shows "k = k'"
proof -
  have "(k, s) \<in> set m" "(k', s) \<in> set m"
    using assms(2,3) by (auto dest: map_get_Some_mem)
  with assms(1) show ?thesis
    by (induction m) (auto simp: rev_image_eqI)
qed

lemma valid_ref:
  assumes "list_all (\<lambda>(k, s). s < length h) m" "map_get m k = Some s"
  shows "s < length h"
  using assms map_get_Some_mem [OF assms(2)] by (auto simp: list_all_iff)

lemma remove_phase:
  fixes c :: 'c and h :: "'c heap"
  assumes keys: "distinct (map fst m)"
    and refs: "list_all (\<lambda>(k, s). s < length h) m"
    and unsh: "distinct (map snd m)"
    and get: "map_get m b = Some s"
  defines "h1 \<equiv> set_delete h s c"
  defines "m1 \<equiv> (if set_size h1 s = 0 then map_delete m b else m)"
  shows "length h1 = length h"
    and "map_get m1 k = (if k = b \<and> set (h ! s) \<subseteq> {c} then None else map_get m k)"
    and "bucket_cards h1 m1 k = (if k = b then bucket_cards h m b - {c} else bucket_cards h m k)"
proof -
  have s: "s < length h" by (rule valid_ref [OF refs get])
  show len: "length h1 = length h" by (simp add: h1_def set_delete_def)
  have at_s: "h1 ! s = removeAll c (h ! s)"
    using s by (simp add: h1_def set_delete_def)
  have other: "h1 ! t = h ! t" if "t \<noteq> s" for t
    using that by (simp add: h1_def set_delete_def)
  have emptied: "set_size h1 s = 0 \<longleftrightarrow> set (h ! s) \<subseteq> {c}"
    unfolding set_size_def at_s length_0_conv
    by (metis Diff_eq_empty_iff set_empty set_removeAll)
  have m1: "map_get m1 j = (if j = b \<and> set (h ! s) \<subseteq> {c} then None else map_get m j)" for j
    using emptied by (simp add: m1_def map_get_map_delete)
  show "map_get m1 k = (if k = b \<and> set (h ! s) \<subseteq> {c} then None else map_get m k)"
    by (rule m1)
  show "bucket_cards h1 m1 k = (if k = b then bucket_cards h m b - {c} else bucket_cards h m k)"
  proof (cases "k = b")
    case True
    then show ?thesis
      using get at_s by (auto simp: bucket_cards_def m1)
  next
    case False
    have "h1 ! t = h ! t" if "map_get m k = Some t" for t
    proof -
      have "t \<noteq> s"
        using that False unshared_inj [OF unsh _ get] by blast
      then show ?thesis by (rule other)
    qed
    then show ?thesis
      using False by (auto simp: bucket_cards_def m1 split: option.splits)
  qed
qed

lemma insert_phase:
  fixes c :: 'c and h1 :: "'c heap"
  assumes refs: "\<And>k t. map_get m1 k = Some t \<Longrightarrow> t < length h1"
    and unsh: "\<And>k k' t. map_get m1 k = Some t \<Longrightarrow> map_get m1 k' = Some t \<Longrightarrow> k = k'"
    and alloc: "(h2, newCards) = (case map_get m1 nb of Some t \<Rightarrow> (h1, t) | None \<Rightarrow> new_Set h1)"
  defines "h3 \<equiv> set_add h2 newCards c"
  defines "m' \<equiv> map_set m1 nb newCards"
  shows "bucket_cards h3 m' k
           = (if k = nb then insert c (bucket_cards h1 m1 nb) else bucket_cards h1 m1 k)"
proof -
  have m': "map_get m' j = (if j = nb then Some newCards else map_get m1 j)" for j
    by (simp add: m'_def map_get_map_set)
  show "bucket_cards h3 m' k
           = (if k = nb then insert c (bucket_cards h1 m1 nb) else bucket_cards h1 m1 k)"
  proof (cases "map_get m1 nb")
    case None
    then have h2: "h2 = h1 @ [[]]" and nc: "newCards = length h1"
      using alloc by (simp_all add: new_Set_def)
    have at_new: "h3 ! newCards = [c]"
      by (simp add: h3_def set_add_def h2 nc add_member_def)
    have old: "h3 ! t = h1 ! t" if "t < length h1" for t
      using that by (simp add: h3_def set_add_def h2 nc nth_append)
    show ?thesis
    proof (cases "k = nb")
      case True
      then show ?thesis using None at_new by (simp add: bucket_cards_def m')
    next
      case False
      then show ?thesis
        using refs old by (auto simp: bucket_cards_def m' split: option.splits)
    qed
  next
    case (Some t)
    then have h2: "h2 = h1" and nc: "newCards = t"
      using alloc by simp_all
    have t: "t < length h1" by (rule refs [OF Some])
    have at_new: "set (h3 ! t) = insert c (set (h1 ! t))"
      using t by (auto simp: h3_def set_add_def h2 nc add_member_def)
    have old: "h3 ! u = h1 ! u" if "u \<noteq> t" for u
      using that by (simp add: h3_def set_add_def h2 nc)
    show ?thesis
    proof (cases "k = nb")
      case True
      then show ?thesis using Some at_new nc by (simp add: bucket_cards_def m')
    next
      case False
      have "h3 ! u = h1 ! u" if "map_get m1 k = Some u" for u
      proof -
        have "u \<noteq> t"
          using that False unsh [OF _ Some] by blast
        then show ?thesis by (rule old)
      qed
      then show ?thesis
        using False by (auto simp: bucket_cards_def m' split: option.splits)
    qed
  qed
qed

lemma update_found:
  fixes c :: 'c and h :: "'c heap" and d :: AnswerDifficulty
  assumes valid: "valid_buckets h m"
    and unsh: "unshared_sets m"
    and found: "find_bucket h m c = Some b"
  defines "nb \<equiv> (case d of Easy \<Rightarrow> js_plus_one b | Hard \<Rightarrow> nat (max 0 (js_minus_one b)) | Wrong \<Rightarrow> 0)"
  shows "\<exists>h' m'. update h m c d = Inr (h', m')
           \<and> (\<forall>k. bucket_cards h' m' k
                  = (if k = nb then insert c (bucket_cards h m k)
                     else if k = b then bucket_cards h m k - {c}
                     else bucket_cards h m k))
           \<and> (\<forall>k. map_get m' k \<noteq> None \<longleftrightarrow>
                  k = nb \<or> (map_get m k \<noteq> None \<and> \<not> (k = b \<and> bucket_cards h m b \<subseteq> {c})))
           \<and> distinct (map fst m')"
proof -
  have keys: "distinct (map fst m)" and refs: "list_all (\<lambda>(k, s). s < length h) m"
    using valid by (simp_all add: valid_buckets_def)
  have unsh': "distinct (map snd m)"
    using unsh by (simp add: unshared_sets_def)
  obtain s where get: "map_get m b = Some s" and mem: "c \<in> set (h ! s)"
    using find_bucket_Some_get [OF keys found] by blast
  define h1 where "h1 = set_delete h s c"
  define m1 where "m1 = (if set_size h1 s = 0 then map_delete m b else m)"
  note rp = remove_phase [where c = c, OF keys refs unsh' get, folded h1_def, folded m1_def]
  obtain h2 newCards
    where alloc: "(h2, newCards) = (case map_get m1 nb of Some t \<Rightarrow> (h1, t) | None \<Rightarrow> new_Set h1)"
    by (metis surj_pair)
  define h3 where "h3 = set_add h2 newCards c"
  define m' where "m' = map_set m1 nb newCards"
  have refs1: "t < length h1" if "map_get m1 k = Some t" for k t
    using that valid_ref [OF refs] rp(1) by (auto simp: rp(2) split: if_splits)
  have unsh1: "k = k'" if "map_get m1 k = Some t" "map_get m1 k' = Some t" for k k' t
    using that unshared_inj [OF unsh'] by (auto simp: rp(2) split: if_splits)
  note ip2 = insert_phase [where c = c, OF refs1 unsh1 alloc, folded h3_def, folded m'_def]
  have "update h m c d
          = (case (case map_get m1 nb of Some t \<Rightarrow> (h1, t) | None \<Rightarrow> new_Set h1) of
               (h2, newCards) \<Rightarrow> Inr (set_add h2 newCards c, map_set m1 nb newCards))"
    unfolding update_def Let_def h1_def m1_def nb_def by (simp add: found get)
  then have run: "update h m c d = Inr (h3, m')"
    unfolding alloc [symmetric] by (simp add: h3_def m'_def)
  have cards: "bucket_cards h3 m' k
                  = (if k = nb then insert c (bucket_cards h m k)
                     else if k = b then bucket_cards h m k - {c}
                     else bucket_cards h m k)" for k
    by (auto simp: ip2 rp(3))
  have b_cards: "bucket_cards h m b = set (h ! s)"
    using get by (simp add: bucket_cards_def)
  have dom: "map_get m' k \<noteq> None \<longleftrightarrow>
                  k = nb \<or> (map_get m k \<noteq> None \<and> \<not> (k = b \<and> bucket_cards h m b \<subseteq> {c}))" for k
  proof -
    have "map_get m' k = (if k = nb then Some newCards
                          else if k = b \<and> set (h ! s) \<subseteq> {c} then None else map_get m k)"
      by (simp add: m'_def map_get_map_set rp(2))
    then show ?thesis
      using get by (auto simp: b_cards)
  qed
  have keys': "distinct (map fst m')"
    using keys by (simp add: m'_def m1_def distinct_map_set distinct_map_delete)
  from run cards dom keys' show ?thesis by blast
qed

lemma find_bucket_unique:
  assumes keys: "distinct (map fst m)"
    and mem: "c \<in> bucket_cards h m b"
    and only: "\<forall>k. c \<in> bucket_cards h m k \<longrightarrow> k = b"
  shows "find_bucket h m c = Some b"
proof (cases "find_bucket h m c")
  case None
  obtain s where "map_get m b = Some s" "c \<in> set (h ! s)"
    using mem by (auto simp: bucket_cards_def split: option.splits)
  then have "(b, s) \<in> set m" "c \<in> set (h ! s)"
    by (auto dest: map_get_Some_mem)
  with None show ?thesis
    by (auto simp: find_bucket_None)
next
  case (Some b')
  obtain s where "map_get m b' = Some s" "c \<in> set (h ! s)"
    using find_bucket_Some_get [OF keys Some] by blast
  then have "c \<in> bucket_cards h m b'"
    by (simp add: bucket_cards_def)
  with only Some show ?thesis by blast
qed

lemma find_bucket_in_bucket:
  assumes "distinct (map fst m)" "find_bucket h m c = Some b"
  shows "c \<in> bucket_cards h m b"
  using find_bucket_Some_get [OF assms] by (auto simp: bucket_cards_def)

lemma no_empty_iff:
  assumes "distinct (map fst m)"
  shows "no_empty_buckets h m \<longleftrightarrow> (\<forall>k. map_get m k \<noteq> None \<longrightarrow> bucket_cards h m k \<noteq> {})"
proof
  assume ne: "no_empty_buckets h m"
  show "\<forall>k. map_get m k \<noteq> None \<longrightarrow> bucket_cards h m k \<noteq> {}"
  proof (intro allI impI)
    fix k assume "map_get m k \<noteq> None"
    then obtain s where s: "map_get m k = Some s" by blast
    then have "(k, s) \<in> set m" by (rule map_get_Some_mem)
    with ne have "h ! s \<noteq> []"
      by (auto simp: no_empty_buckets_def list_all_iff set_size_def)
    with s show "bucket_cards h m k \<noteq> {}"
      by (simp add: bucket_cards_def)
  qed
next
  assume r: "\<forall>k. map_get m k \<noteq> None \<longrightarrow> bucket_cards h m k \<noteq> {}"
  have "h ! s \<noteq> []" if "(k, s) \<in> set m" for k s
  proof -
    have "map_get m k = Some s" by (rule mem_map_get [OF assms that])
    with r [rule_format, of k] show ?thesis
      by (auto simp: bucket_cards_def)
  qed
  then show "no_empty_buckets h m"
    by (auto simp: no_empty_buckets_def list_all_iff set_size_def)
qed

text \<open>
  In a map of the data model, where no stored set is empty and no card is in two buckets,
  every bucket has a Set object of its own.
\<close>

lemma sparse_map_unshared:
  assumes keys: "distinct (map fst m)"
    and ne: "no_empty_buckets h m"
    and once: "\<forall>x k k'. x \<in> bucket_cards h m k \<and> x \<in> bucket_cards h m k' \<longrightarrow> k = k'"
  shows "unshared_sets m"
proof -
  have "snd (m ! i) \<noteq> snd (m ! j)" if "i < length m" "j < length m" "i \<noteq> j" for i j
  proof
    assume same: "snd (m ! i) = snd (m ! j)"
    obtain k s where i: "m ! i = (k, s)" by (cases "m ! i")
    obtain k' where j: "m ! j = (k', s)"
      using same i by (cases "m ! j") simp
    have "(k, s) \<in> set m" "(k', s) \<in> set m"
      using that(1,2) i j nth_mem by metis+
    then have get: "map_get m k = Some s" "map_get m k' = Some s"
      using mem_map_get [OF keys] by blast+
    then have "h ! s \<noteq> []"
      using ne no_empty_iff [OF keys, of h] by (auto simp: bucket_cards_def)
    then obtain x where "x \<in> set (h ! s)"
      by (cases "h ! s") auto
    then have "x \<in> bucket_cards h m k" "x \<in> bucket_cards h m k'"
      using get by (simp_all add: bucket_cards_def)
    with once have "k = k'" by blast
    moreover have "map fst m ! i \<noteq> map fst m ! j"
      using nth_eq_iff_index_eq [OF keys, of i j] that by simp
    ultimately show False
      using that(1,2) i j by simp
  qed
  then show ?thesis
    by (simp add: unshared_sets_def distinct_conv_nth)
qed

lemmas heap_eval = number_eval update_def set_has_def set_size_def set_add_def set_delete_def new_Set_def
  add_member_def bucket_cards_def valid_buckets_def unshared_sets_def no_empty_buckets_def

section \<open>Properties of the bucket transition\<close>

text \<open>
  Claim C7. If the card is in no set of the map, \<^verbatim>\<open>update\<close> returns the map as it was, with
  the store unchanged, and does not fail.
\<close>

theorem update_absent_card_noop:
  assumes "\<forall>k s. (k, s) \<in> set m \<longrightarrow> \<not> set_has h s c"
  shows "update h m c d = Inr (h, m)"
proof -
  have "find_bucket h m c = None"
    using assms by (auto simp: find_bucket_None set_has_def)
  then show ?thesis
    by (simp add: update_def)
qed

theorem update_absent_card_noop_witness:
  "update [[7::nat]] [(0, 0)] 8 Easy = Inr ([[7]], [(0, 0)])"
  using update_absent_card_noop [of "[(0, 0)]" "[[7::nat]]" 8 Easy]
  by (simp add: set_has_def)

text \<open>
  Claim C3, as stated, fails beyond the exact range of numbers. For a card in bucket
  \<open>2 ^ 53\<close> the sum \<^verbatim>\<open>currentBucket + 1\<close> is rounded back to \<open>2 ^ 53\<close>, so after Easy the card
  is in bucket \<open>2 ^ 53\<close> again and not in bucket \<open>2 ^ 53 + 1\<close>. For a card in bucket
  \<open>2 ^ 53 + 4\<close> the difference \<^verbatim>\<open>currentBucket - 1\<close> is rounded back to \<open>2 ^ 53 + 4\<close>, so
  after Hard the card is in bucket \<open>2 ^ 53 + 4\<close> again and not in bucket \<open>2 ^ 53 + 3\<close>.
\<close>

theorem update_rounded_bucket_counterexample:
  "valid_buckets [[7::nat]] [(9007199254740992, 0)]
   \<and> unshared_sets [(9007199254740992, 0)]
   \<and> bucket_cards [[7::nat]] [(9007199254740992, 0)] 9007199254740992 = {7}
   \<and> update [[7::nat]] [(9007199254740992, 0)] 7 Easy = Inr ([[], [7]], [(9007199254740992, 1)])
   \<and> bucket_cards [[], [7::nat]] [(9007199254740992, 1)] (9007199254740992 + 1) = {}
   \<and> bucket_cards [[], [7::nat]] [(9007199254740992, 1)] 9007199254740992 = {7}
   \<and> bucket_cards [[7::nat]] [(9007199254740996, 0)] 9007199254740996 = {7}
   \<and> update [[7::nat]] [(9007199254740996, 0)] 7 Hard = Inr ([[], [7]], [(9007199254740996, 1)])
   \<and> bucket_cards [[], [7::nat]] [(9007199254740996, 1)] (9007199254740996 - 1) = {}
   \<and> bucket_cards [[], [7::nat]] [(9007199254740996, 1)] 9007199254740996 = {7}"
  by (simp add: heap_eval)

text \<open>
  Claim C3, amended. In a well-formed map, for a card in exactly one bucket \<open>b\<close>: after Easy
  the card is in bucket \<open>b + 1\<close> of the returned map and in no other, when \<open>b < 2 ^ 53\<close>;
  after Hard it is in bucket \<open>max 0 (b - 1)\<close> and in no other, when \<open>b \<le> 2 ^ 53\<close>; after
  Wrong it is in bucket \<open>0\<close> and in no other.
\<close>

theorem update_moves_card:
  assumes valid: "valid_buckets h m"
    and unsh: "unshared_sets m"
    and mem: "c \<in> bucket_cards h m b"
    and only: "\<forall>k. c \<in> bucket_cards h m k \<longrightarrow> k = b"
  shows "(b < 2 ^ 53 \<longrightarrow>
            (\<exists>h' m'. update h m c Easy = Inr (h', m')
               \<and> (\<forall>k. c \<in> bucket_cards h' m' k \<longleftrightarrow> k = b + 1)))
       \<and> (b \<le> 2 ^ 53 \<longrightarrow>
            (\<exists>h' m'. update h m c Hard = Inr (h', m')
               \<and> (\<forall>k. c \<in> bucket_cards h' m' k \<longleftrightarrow> k = nat (max 0 (int b - 1)))))
       \<and> (\<exists>h' m'. update h m c Wrong = Inr (h', m')
            \<and> (\<forall>k. c \<in> bucket_cards h' m' k \<longleftrightarrow> k = 0))"
proof -
  have keys: "distinct (map fst m)"
    using valid by (simp add: valid_buckets_def)
  have found: "find_bucket h m c = Some b"
    by (rule find_bucket_unique [OF keys mem only])
  have move: "\<exists>h' m'. update h m c d = Inr (h', m')
      \<and> (\<forall>k. c \<in> bucket_cards h' m' k \<longleftrightarrow>
             k = (case d of Easy \<Rightarrow> js_plus_one b | Hard \<Rightarrow> nat (max 0 (js_minus_one b)) | Wrong \<Rightarrow> 0))" for d
  proof -
    obtain h' m' where run: "update h m c d = Inr (h', m')"
      and cards: "\<And>k. bucket_cards h' m' k
                  = (if k = (case d of Easy \<Rightarrow> js_plus_one b | Hard \<Rightarrow> nat (max 0 (js_minus_one b)) | Wrong \<Rightarrow> 0)
                     then insert c (bucket_cards h m k)
                     else if k = b then bucket_cards h m k - {c}
                     else bucket_cards h m k)"
      using update_found [OF valid unsh found, of d] by blast
    have "c \<in> bucket_cards h' m' k \<longleftrightarrow>
             k = (case d of Easy \<Rightarrow> js_plus_one b | Hard \<Rightarrow> nat (max 0 (js_minus_one b)) | Wrong \<Rightarrow> 0)" for k
      using only by (auto simp: cards)
    with run show ?thesis by blast
  qed
  have easy: "\<exists>h' m'. update h m c Easy = Inr (h', m')
                \<and> (\<forall>k. c \<in> bucket_cards h' m' k \<longleftrightarrow> k = b + 1)" if "b < 2 ^ 53"
    using move [of Easy] js_plus_one_exact [OF that] by simp
  have hard: "\<exists>h' m'. update h m c Hard = Inr (h', m')
                \<and> (\<forall>k. c \<in> bucket_cards h' m' k \<longleftrightarrow> k = nat (max 0 (int b - 1)))" if "b \<le> 2 ^ 53"
    using move [of Hard] js_minus_one_exact [OF that] by simp
  have wrong: "\<exists>h' m'. update h m c Wrong = Inr (h', m')
                \<and> (\<forall>k. c \<in> bucket_cards h' m' k \<longleftrightarrow> k = 0)"
    using move [of Wrong] by simp
  from easy hard wrong show ?thesis by blast
qed

theorem update_moves_card_witness:
  "(\<exists>h' m'. update [[7, 8], [9::nat]] [(3, 0), (2, 1)] 7 Easy = Inr (h', m') \<and> 7 \<in> bucket_cards h' m' 4)
   \<and> (\<exists>h' m'. update [[7, 8], [9::nat]] [(3, 0), (2, 1)] 7 Hard = Inr (h', m') \<and> 7 \<in> bucket_cards h' m' 2)
   \<and> (\<exists>h' m'. update [[7, 8], [9::nat]] [(3, 0), (2, 1)] 7 Wrong = Inr (h', m') \<and> 7 \<in> bucket_cards h' m' 0)"
proof -
  have valid: "valid_buckets [[7, 8], [9::nat]] [(3, 0), (2, 1)]"
    by (simp add: valid_buckets_def)
  have unsh: "unshared_sets [(3, 0), (2, 1)]"
    by (simp add: unshared_sets_def)
  have mem: "7 \<in> bucket_cards [[7, 8], [9::nat]] [(3, 0), (2, 1)] 3"
    by (simp add: bucket_cards_def)
  have only: "\<forall>k. 7 \<in> bucket_cards [[7, 8], [9::nat]] [(3, 0), (2, 1)] k \<longrightarrow> k = 3"
    by (simp add: bucket_cards_def)
  have small: "(3::nat) < 2 ^ 53" "(3::nat) \<le> 2 ^ 53"
    by simp_all
  from update_moves_card [OF valid unsh mem only] small show ?thesis
    by simp blast
qed

text \<open>
  Claim C6, as stated, fails where the card is the only one of bucket 0 and the judgment is
  Hard: removing the card empties the source bucket 0 and its key is deleted, but the
  destination is bucket 0 again, so key 0 is in the returned map.
\<close>

theorem update_emptied_bucket0_counterexample:
  "no_empty_buckets [[7::nat]] [(0, 0)]
   \<and> find_bucket [[7::nat]] [(0, 0)] 7 = Some 0
   \<and> set_size (set_delete [[7::nat]] 0 7) 0 = 0
   \<and> update [[7::nat]] [(0, 0)] 7 Hard = Inr ([[], [7]], [(0, 1)])
   \<and> map_get [(0::nat, 1::nat)] 0 = Some 1"
  by (simp add: heap_eval)

text \<open>
  Claim C6, amended. In a well-formed map where no stored set is empty, no set stored in
  the returned map is empty; and when the card was the only one of its bucket and is
  filed under another bucket number, the key of the source bucket is absent from the
  returned map.
\<close>

theorem update_keeps_buckets_nonempty:
  assumes valid: "valid_buckets h m"
    and unsh: "unshared_sets m"
    and ne: "no_empty_buckets h m"
  shows "\<exists>h' m'. update h m c d = Inr (h', m')
           \<and> no_empty_buckets h' m'
           \<and> (\<forall>b. find_bucket h m c = Some b \<and> bucket_cards h m b = {c}
                    \<and> c \<notin> bucket_cards h' m' b
                  \<longrightarrow> map_get m' b = None)"
proof (cases "find_bucket h m c")
  case None
  then have "update h m c d = Inr (h, m)"
    by (simp add: update_def)
  with ne None show ?thesis by simp
next
  case (Some b)
  define nb where "nb = (case d of Easy \<Rightarrow> js_plus_one b | Hard \<Rightarrow> nat (max 0 (js_minus_one b)) | Wrong \<Rightarrow> 0)"
  have keys: "distinct (map fst m)"
    using valid by (simp add: valid_buckets_def)
  obtain h' m' where run: "update h m c d = Inr (h', m')"
    and cards: "\<And>k. bucket_cards h' m' k
                  = (if k = nb then insert c (bucket_cards h m k)
                     else if k = b then bucket_cards h m k - {c}
                     else bucket_cards h m k)"
    and dom: "\<And>k. map_get m' k \<noteq> None \<longleftrightarrow>
                  k = nb \<or> (map_get m k \<noteq> None \<and> \<not> (k = b \<and> bucket_cards h m b \<subseteq> {c}))"
    and keys': "distinct (map fst m')"
    using update_found [OF valid unsh Some, of d] unfolding nb_def by blast
  have old: "\<And>k. map_get m k \<noteq> None \<Longrightarrow> bucket_cards h m k \<noteq> {}"
    using ne no_empty_iff [OF keys] by blast
  have "bucket_cards h' m' k \<noteq> {}" if "map_get m' k \<noteq> None" for k
  proof -
    from that have "k = nb \<or> (map_get m k \<noteq> None \<and> \<not> (k = b \<and> bucket_cards h m b \<subseteq> {c}))"
      by (simp only: dom)
    then show ?thesis
      using old [of k] by (auto simp: cards)
  qed
  then have ne': "no_empty_buckets h' m'"
    using no_empty_iff [OF keys'] by blast
  have "map_get m' b = None" if "bucket_cards h m b = {c}" "c \<notin> bucket_cards h' m' b"
  proof -
    have "b \<noteq> nb"
      using that(2) by (auto simp: cards)
    with dom [of b] that(1) show ?thesis by auto
  qed
  with run ne' Some show ?thesis by auto
qed

theorem update_keeps_buckets_nonempty_witness:
  "update [[7::nat]] [(3, 0)] 7 Hard = Inr ([[], [7]], [(2, 1)])
   \<and> no_empty_buckets [[], [7::nat]] [(2, 1)]
   \<and> map_get [(2::nat, 1::nat)] 3 = None"
proof -
  have valid: "valid_buckets [[7::nat]] [(3, 0)]"
    by (simp add: valid_buckets_def)
  have unsh: "unshared_sets [(3, 0)]"
    by (simp add: unshared_sets_def)
  have ne: "no_empty_buckets [[7::nat]] [(3, 0)]"
    by (simp add: no_empty_buckets_def set_size_def)
  from update_keeps_buckets_nonempty [OF valid unsh ne, of 7 Hard] show ?thesis
    by (simp add: heap_eval)
qed

text \<open>
  Claim C10. In a well-formed map where every card is in at most one bucket, \<^verbatim>\<open>update\<close>
  keeps the union of all buckets, leaves every card other than the updated one in its
  bucket, and returns a map where every card is in at most one bucket.
\<close>

theorem update_keeps_every_card:
  assumes valid: "valid_buckets h m"
    and unsh: "unshared_sets m"
    and once: "\<forall>x k k'. x \<in> bucket_cards h m k \<and> x \<in> bucket_cards h m k' \<longrightarrow> k = k'"
  shows "\<exists>h' m'. update h m c d = Inr (h', m')
           \<and> (\<Union>k. bucket_cards h' m' k) = (\<Union>k. bucket_cards h m k)
           \<and> (\<forall>x k. x \<noteq> c \<longrightarrow> (x \<in> bucket_cards h' m' k \<longleftrightarrow> x \<in> bucket_cards h m k))
           \<and> (\<forall>x k k'. x \<in> bucket_cards h' m' k \<and> x \<in> bucket_cards h' m' k' \<longrightarrow> k = k')"
proof (cases "find_bucket h m c")
  case None
  then have "update h m c d = Inr (h, m)"
    by (simp add: update_def)
  with once show ?thesis by simp
next
  case (Some b)
  define nb where "nb = (case d of Easy \<Rightarrow> js_plus_one b | Hard \<Rightarrow> nat (max 0 (js_minus_one b)) | Wrong \<Rightarrow> 0)"
  have keys: "distinct (map fst m)"
    using valid by (simp add: valid_buckets_def)
  have c_in: "c \<in> bucket_cards h m b"
    by (rule find_bucket_in_bucket [OF keys Some])
  have c_only: "k = b" if "c \<in> bucket_cards h m k" for k
    using once that c_in by blast
  obtain h' m' where run: "update h m c d = Inr (h', m')"
    and cards: "\<And>k. bucket_cards h' m' k
                  = (if k = nb then insert c (bucket_cards h m k)
                     else if k = b then bucket_cards h m k - {c}
                     else bucket_cards h m k)"
    using update_found [OF valid unsh Some, of d] unfolding nb_def by blast
  have others: "x \<in> bucket_cards h' m' k \<longleftrightarrow> x \<in> bucket_cards h m k" if "x \<noteq> c" for x k
    using that by (auto simp: cards)
  have moved: "c \<in> bucket_cards h' m' k \<longleftrightarrow> k = nb" for k
    using c_only by (auto simp: cards)
  have union: "(\<Union>k. bucket_cards h' m' k) = (\<Union>k. bucket_cards h m k)"
  proof (intro set_eqI iffI)
    fix x assume "x \<in> (\<Union>k. bucket_cards h' m' k)"
    then obtain k where k: "x \<in> bucket_cards h' m' k" by blast
    show "x \<in> (\<Union>k. bucket_cards h m k)"
    proof (cases "x = c")
      case True
      with c_in show ?thesis by blast
    next
      case False
      with k others show ?thesis by blast
    qed
  next
    fix x assume "x \<in> (\<Union>k. bucket_cards h m k)"
    then obtain k where k: "x \<in> bucket_cards h m k" by blast
    show "x \<in> (\<Union>k. bucket_cards h' m' k)"
    proof (cases "x = c")
      case True
      with moved show ?thesis by blast
    next
      case False
      with k others show ?thesis by blast
    qed
  qed
  have once': "k = k'" if "x \<in> bucket_cards h' m' k" "x \<in> bucket_cards h' m' k'" for x k k'
  proof (cases "x = c")
    case True
    with that moved show ?thesis by simp
  next
    case False
    with that others once show ?thesis by blast
  qed
  from run union others once' show ?thesis by blast
qed

theorem update_keeps_every_card_witness:
  "update [[7, 8], [9::nat]] [(3, 0), (2, 1)] 7 Easy = Inr ([[8], [9], [7]], [(3, 0), (2, 1), (4, 2)])
   \<and> (\<Union>k. bucket_cards [[8], [9], [7::nat]] [(3, 0), (2, 1), (4, 2)] k)
       = (\<Union>k. bucket_cards [[7, 8], [9::nat]] [(3, 0), (2, 1)] k)"
proof -
  have valid: "valid_buckets [[7, 8], [9::nat]] [(3, 0), (2, 1)]"
    by (simp add: valid_buckets_def)
  have unsh: "unshared_sets [(3, 0), (2, 1)]"
    by (simp add: unshared_sets_def)
  have once: "\<forall>x k k'. x \<in> bucket_cards [[7, 8], [9::nat]] [(3, 0), (2, 1)] k
                \<and> x \<in> bucket_cards [[7, 8], [9::nat]] [(3, 0), (2, 1)] k' \<longrightarrow> k = k'"
    by (auto simp: bucket_cards_def split: if_splits)
  have run: "update [[7, 8], [9::nat]] [(3, 0), (2, 1)] 7 Easy
               = Inr ([[8], [9], [7]], [(3, 0), (2, 1), (4, 2)])"
    by (simp add: heap_eval)
  from update_keeps_every_card [OF valid unsh once, of 7 Easy] show ?thesis
    unfolding run by simp
qed

text \<open>
  Claim C1 fails on the code: \<^verbatim>\<open>new Map(buckets)\<close> copies the entries, not the sets, so
  \<^verbatim>\<open>currentCards.delete(card)\<close> removes the card from the set the caller's map holds.
  After an Easy update of the only card of bucket 0, the caller's map still has key 0,
  and the set under it is empty.
\<close>

theorem update_mutates_caller_set:
  "update [[7::nat]] [(0, 0)] 7 Easy = Inr ([[], [7]], [(1, 1)])
   \<and> bucket_cards [[7::nat]] [(0, 0)] 0 = {7}
   \<and> bucket_cards [[], [7::nat]] [(0, 0)] 0 = {}"
  by (simp add: heap_eval)

section \<open>Properties of the representation conversion\<close>

text \<open>
  Claim C2 fails on the code: \<^verbatim>\<open>lastbucket\<close> starts at 0 and the fill loop runs for
  \<open>i = 0\<close>, so the empty map gives an array of length 1 holding one new empty set.
\<close>

theorem toBucketSets_empty_map:
  "toBucketSets h [] = (h @ [[]], [Some (length h)])
   \<and> length (snd (toBucketSets h [])) = 1"
  by (simp add: toBucketSets_def map_keys_def new_Set_def array_set_def)




declare fill_loop.simps [simp del]








section \<open>Properties of the due-set selection\<close>

lemma set_add_member: "set (add_member xs x) = insert x (set xs)"
  by (auto simp: add_member_def)

lemma set_forEach_add: "set (forEach_add cs acc) = set cs \<union> set acc"
  by (induction cs arbitrary: acc) (auto simp: set_add_member)

declare practice_loop.simps [simp del]

lemma practice_loop_cards:
  "length buckets - i = n \<Longrightarrow>
   set (practice_loop h buckets dayNumber i acc)
     = set acc \<union> (\<Union>j \<in> {j. i \<le> j \<and> j < length buckets \<and> dayNumber mod 2 ^ j = 0}.
                        slot_cards h buckets j)"
proof (induction n arbitrary: i acc)
  case 0
  then have "\<not> i < length buckets" by simp
  then show ?case
    by (subst practice_loop.simps) auto
next
  case (Suc n)
  then have lt: "i < length buckets" by simp
  let ?due = "\<lambda>k. {j. k \<le> j \<and> j < length buckets \<and> dayNumber mod 2 ^ j = 0}"
  let ?acc' = "(case buckets ! i of
                  Some s \<Rightarrow> if dayNumber mod 2 ^ i = 0 then forEach_add (h ! s) acc else acc
                | None \<Rightarrow> acc)"
  have step: "practice_loop h buckets dayNumber i acc
                = practice_loop h buckets dayNumber (i + 1) ?acc'"
    using lt by (subst practice_loop.simps) simp
  have ih: "set (practice_loop h buckets dayNumber (i + 1) ?acc')
              = set ?acc' \<union> (\<Union>j \<in> ?due (i + 1). slot_cards h buckets j)"
    using Suc.prems by (intro Suc.IH) simp
  have acc': "set ?acc' = set acc \<union> (if dayNumber mod 2 ^ i = 0 then slot_cards h buckets i else {})"
    using lt by (auto simp: slot_cards_def set_forEach_add split: option.splits)
  have due: "?due i = (if dayNumber mod 2 ^ i = 0 then {i} else {}) \<union> ?due (i + 1)"
    using lt by (auto simp: Suc_le_eq le_less)
  show ?case
    unfolding step ih acc' by (subst due) auto
qed

lemma one_mod_power2: "(1::nat) mod 2 ^ i = 0 \<longleftrightarrow> i = 0"
  by (cases i) simp_all

text \<open>
  Claim C4, as stated, fails beyond the exact range of numbers: on day \<open>2 ^ 53\<close> the sum
  \<^verbatim>\<open>day + 1\<close> is rounded back to \<open>2 ^ 53\<close>, an even number, so bucket 1 is due although
  \<open>(2 ^ 53 + 1) mod 2 ^ 1\<close> is not 0.
\<close>

theorem practice_rounded_day_counterexample:
  "practice [[1], [2::nat]] [Some 0, Some 1] 9007199254740992 = [1, 2]
   \<and> slot_cards [[1], [2::nat]] [Some 0, Some 1] 1 = {2}
   \<and> (9007199254740992 + 1) mod 2 ^ 1 = (1::nat)"
  by (simp add: practice_def practice_loop.simps add_member_def slot_cards_def number_eval)

text \<open>
  Claim C4, amended. For a day \<open>d < 2 ^ 53\<close> the cards returned are exactly the cards of the
  slots \<open>i\<close> with \<open>(d + 1) mod 2 ^ i = 0\<close>; for day 0 they are the cards of slot 0; and
  when every slot is empty (or there is none) the result is empty on every day.
\<close>

theorem practice_due_buckets:
  "(d < 2 ^ 53 \<longrightarrow>
      set (practice h buckets d)
        = (\<Union>i \<in> {i. i < length buckets \<and> (d + 1) mod 2 ^ i = 0}. slot_cards h buckets i))
   \<and> set (practice h buckets 0) = slot_cards h buckets 0
   \<and> ((\<forall>i < length buckets. slot_cards h buckets i = {}) \<longrightarrow> practice h buckets d = [])"
proof -
  have all: "set (practice h buckets d')
     = (\<Union>i \<in> {i. i < length buckets \<and> js_plus_one d' mod 2 ^ i = 0}. slot_cards h buckets i)" for d'
    using practice_loop_cards [of buckets 0 "length buckets" h "js_plus_one d'" "[]"]
    by (simp add: practice_def)
  have exact: "set (practice h buckets d)
     = (\<Union>i \<in> {i. i < length buckets \<and> (d + 1) mod 2 ^ i = 0}. slot_cards h buckets i)"
    if "d < 2 ^ 53"
    unfolding all using js_plus_one_exact [OF that] by simp
  have "js_plus_one 0 = 1"
    using js_plus_one_exact [of 0] by simp
  then have "{i. i < length buckets \<and> js_plus_one 0 mod (2::nat) ^ i = 0}
               = (if buckets = [] then {} else {0})"
    by (auto simp: one_mod_power2)
  then have day0: "set (practice h buckets 0) = slot_cards h buckets 0"
    unfolding all by (simp add: slot_cards_def)
  have empty: "practice h buckets d = []" if "\<forall>i < length buckets. slot_cards h buckets i = {}"
  proof -
    have "set (practice h buckets d) = {}"
      unfolding all using that by auto
    then show ?thesis by simp
  qed
  from exact day0 empty show ?thesis by blast
qed

theorem practice_due_buckets_witness:
  "practice [[], []] [Some 0, Some 1] (0::nat) = ([] :: nat list)
   \<and> set (practice [[1], [2], [3::nat]] [Some 0, Some 1, Some 2] 0) = {1}
   \<and> set (practice [[1], [2], [3::nat]] [Some 0, Some 1, Some 2] 1)
       = (\<Union>i \<in> {i. i < length [Some (0::nat), Some 1, Some 2] \<and> (1 + 1) mod (2::nat) ^ i = 0}.
            slot_cards [[1], [2], [3::nat]] [Some 0, Some 1, Some 2] i)"
proof -
  have e: "\<forall>i < length [Some (0::nat), Some 1].
             slot_cards ([[], []] :: nat list list) [Some 0, Some 1] i = {}"
    by (simp add: slot_cards_def less_Suc_eq)
  have s: "slot_cards [[1], [2], [3::nat]] [Some 0, Some 1, Some 2] 0 = {1}"
    by (simp add: slot_cards_def)
  have small: "(1::nat) < 2 ^ 53"
    by simp
  from e practice_due_buckets [of 0 "[[], []] :: nat list list" "[Some 0, Some 1]"]
  have a: "practice [[], []] [Some 0, Some 1] (0::nat) = ([] :: nat list)"
    by blast
  from practice_due_buckets [of 0 "[[1], [2], [3::nat]]" "[Some 0, Some 1, Some 2]"]
  have b: "set (practice [[1], [2], [3::nat]] [Some 0, Some 1, Some 2] 0)
             = slot_cards [[1], [2], [3::nat]] [Some 0, Some 1, Some 2] 0"
    by blast
  have c: "set (practice [[1], [2], [3::nat]] [Some 0, Some 1, Some 2] 1)
       = (\<Union>i \<in> {i. i < length [Some (0::nat), Some 1, Some 2] \<and> (1 + 1) mod (2::nat) ^ i = 0}.
            slot_cards [[1], [2], [3::nat]] [Some 0, Some 1, Some 2] i)"
    by (rule mp [OF conjunct1 [OF practice_due_buckets] small])
  from a b c show ?thesis
    unfolding s by blast
qed

section \<open>Properties of the progress analysis\<close>

text \<open>The two counting loops over the buckets and the history.\<close>

lemma map_set_absent: "k \<notin> set (map fst m) \<Longrightarrow> map_set m k v = m @ [(k, v)]"
  by (induction m) auto

lemma count_loop_result:
  "distinct (map fst acc @ map fst es) \<Longrightarrow>
   count_loop h es t acc
     = (t + sum_list (map (\<lambda>(k, s). set_size h s) es),
        acc @ map (\<lambda>(k, s). (k, set_size h s)) es)"
proof (induction es arbitrary: t acc)
  case Nil
  then show ?case by simp
next
  case (Cons e es)
  obtain k s where e: "e = (k, s)" by (cases e)
  have absent: "k \<notin> set (map fst acc)"
    using Cons.prems by (auto simp: e)
  have d: "distinct (map fst (acc @ [(k, set_size h s)]) @ map fst es)"
    using Cons.prems by (auto simp: e)
  show ?case
    using Cons.IH [OF d] by (simp add: e map_set_absent [OF absent] Let_def)
qed

lemma success_loop_result:
  "success_loop es n
     = n + length (filter (\<lambda>e. difficulty e = Easy \<or> difficulty e = Hard) es)"
  by (induction es arbitrary: n) simp_all

text \<open>The counting loop over the history, started after the entries \<open>pre\<close>.\<close>

lemma wrong_count_snoc:
  "wrong_count (pre @ [e]) c
     = wrong_count pre c + (if card_ref e = c \<and> difficulty e = Wrong then 1 else 0)"
  by (simp add: wrong_count_def)

lemma first_wrong_here:
  assumes "wrong_count pre c = 0" "card_ref e = c" "difficulty e = Wrong"
  shows "first_wrong (pre @ e # es) c = length pre"
proof -
  have "\<forall>x \<in> set pre. \<not> (card_ref x = c \<and> difficulty x = Wrong)"
    using assms(1) by (simp add: wrong_count_def filter_empty_conv)
  then have "takeWhile (\<lambda>e. \<not> (card_ref e = c \<and> difficulty e = Wrong)) (pre @ e # es) = pre"
    using assms(2,3) by (simp add: takeWhile_tail)
  then show ?thesis
    by (simp add: first_wrong_def)
qed

lemma wrong_loop_invariant:
  fixes history :: "'c HistoryEntry list"
  assumes "history = pre @ es"
    and "distinct (map fst acc)"
    and "\<forall>c. map_get acc c = (if wrong_count pre c = 0 then None else Some (wrong_count pre c))"
    and "sorted_wrt (\<lambda>a b. first_wrong history a < first_wrong history b) (map fst acc)"
    and "\<forall>a \<in> set (map fst acc). first_wrong history a < length pre"
  shows "distinct (map fst (wrong_loop es acc))
       \<and> (\<forall>c. map_get (wrong_loop es acc) c
                = (if wrong_count history c = 0 then None else Some (wrong_count history c)))
       \<and> sorted_wrt (\<lambda>a b. first_wrong history a < first_wrong history b)
            (map fst (wrong_loop es acc))"
  using assms
proof (induction es arbitrary: pre acc)
  case Nil
  then show ?case by simp
next
  case (Cons e es)
  let ?c = "card_ref e"
  let ?acc' = "(if difficulty e = Wrong
        then (let count = (case map_get acc ?c of Some n \<Rightarrow> n | None \<Rightarrow> 0)
              in map_set acc ?c (count + 1))
        else acc)"
  have hist: "history = (pre @ [e]) @ es"
    using Cons.prems(1) by simp
  have lookup: "map_get acc c = (if wrong_count pre c = 0 then None else Some (wrong_count pre c))" for c
    using Cons.prems(3) by blast
  have keys_iff: "c \<in> fst ` set acc \<longleftrightarrow> wrong_count pre c \<noteq> 0" for c
    using lookup [of c] map_get_None_iff [of acc c] by (auto split: if_splits)
  have d': "distinct (map fst ?acc')"
    using Cons.prems(2) by (simp add: Let_def distinct_map_set)
  have l': "\<forall>c. map_get ?acc' c
              = (if wrong_count (pre @ [e]) c = 0 then None else Some (wrong_count (pre @ [e]) c))"
    by (auto simp: Let_def map_get_map_set lookup wrong_count_snoc)
  have keys': "map fst ?acc'
                 = (if difficulty e = Wrong \<and> wrong_count pre ?c = 0
                    then map fst acc @ [?c] else map fst acc)"
    by (auto simp: Let_def keys_map_set keys_iff)
  have new: "first_wrong history ?c = length pre"
    if "difficulty e = Wrong" "wrong_count pre ?c = 0"
    unfolding Cons.prems(1) using that by (intro first_wrong_here) simp_all
  have s': "sorted_wrt (\<lambda>a b. first_wrong history a < first_wrong history b) (map fst ?acc')"
    unfolding keys' using Cons.prems(4,5) new by (auto simp: sorted_wrt_append)
  have b': "\<forall>a \<in> set (map fst ?acc'). first_wrong history a < length (pre @ [e])"
    unfolding keys' using Cons.prems(5) new by (auto simp: less_Suc_eq)
  have "wrong_loop (e # es) acc = wrong_loop es ?acc'"
    by simp
  then show ?case
    using Cons.IH [OF hist d' l' s' b'] by simp
qed

lemma wrong_loop_result:
  fixes history :: "'c HistoryEntry list"
  shows "distinct (map fst (wrong_loop history []))
       \<and> (\<forall>c. map_get (wrong_loop history []) c
                = (if wrong_count history c = 0 then None else Some (wrong_count history c)))
       \<and> sorted_wrt (\<lambda>a b. first_wrong history a < first_wrong history b)
            (map fst (wrong_loop history []))"
  by (rule wrong_loop_invariant [of history "[]" history "[]"]) (simp_all add: wrong_count_def)

text \<open>The sort: a stable insertion by descending second component.\<close>

lemma set_sort_insert: "set (sort_insert cmp x ys) = insert x (set ys)"
  by (induction ys) auto

lemma set_array_sort: "set (array_sort cmp xs) = set xs"
  by (induction xs) (simp_all add: array_sort_def set_sort_insert)

lemma distinct_sort_insert:
  "distinct (map f (sort_insert cmp x ys)) \<longleftrightarrow> f x \<notin> f ` set ys \<and> distinct (map f ys)"
  by (induction ys) (auto simp: set_sort_insert)

lemma distinct_array_sort: "distinct (map f (array_sort cmp xs)) \<longleftrightarrow> distinct (map f xs)"
  by (induction xs) (simp_all add: array_sort_def distinct_sort_insert set_sort_insert
      set_array_sort [unfolded array_sort_def])

lemma sorted_sort_insert:
  fixes x :: "'a \<times> nat"
  assumes "sorted_wrt (\<lambda>a b. snd b < snd a \<or> (snd a = snd b \<and> Q a b)) ys"
    and "\<forall>y \<in> set ys. Q x y"
  shows "sorted_wrt (\<lambda>a b. snd b < snd a \<or> (snd a = snd b \<and> Q a b))
           (sort_insert (\<lambda>a b. int (snd b) - int (snd a)) x ys)"
  using assms
proof (induction ys)
  case Nil
  then show ?case by simp
next
  case (Cons y ys)
  show ?case
  proof (cases "snd y \<le> snd x")
    case True
    have "snd z \<le> snd y" if "z \<in> set ys" for z
      using Cons.prems(1) that by auto
    with True Cons.prems show ?thesis
      by (auto simp: le_less)
  next
    case False
    with Cons show ?thesis
      by (auto simp: set_sort_insert)
  qed
qed

lemma sorted_array_sort:
  fixes xs :: "('a \<times> nat) list"
  assumes "sorted_wrt Q xs"
  shows "sorted_wrt (\<lambda>a b. snd b < snd a \<or> (snd a = snd b \<and> Q a b))
           (array_sort (\<lambda>a b. int (snd b) - int (snd a)) xs)"
  using assms
proof (induction xs)
  case Nil
  then show ?case by (simp add: array_sort_def)
next
  case (Cons x xs)
  have "sorted_wrt (\<lambda>a b. snd b < snd a \<or> (snd a = snd b \<and> Q a b))
          (sort_insert (\<lambda>a b. int (snd b) - int (snd a)) x
             (array_sort (\<lambda>a b. int (snd b) - int (snd a)) xs))"
    using Cons by (intro sorted_sort_insert) (auto simp: set_array_sort)
  then show ?case
    by (simp add: array_sort_def)
qed

lemma hardest_ranked:
  fixes history :: "'c HistoryEntry list"
  defines "ranked \<equiv> map fst (array_sort (\<lambda>a b. int (snd b) - int (snd a)) (wrong_loop history []))"
  shows "distinct ranked"
    and "set ranked = {c. 1 \<le> wrong_count history c}"
    and "sorted_wrt (\<lambda>a b. wrong_count history b < wrong_count history a
                        \<or> (wrong_count history a = wrong_count history b
                            \<and> first_wrong history a < first_wrong history b)) ranked"
proof -
  let ?wc = "wrong_loop history []"
  let ?cmp = "\<lambda>(a :: 'c \<times> nat) (b :: 'c \<times> nat). int (snd b) - int (snd a)"
  let ?S = "array_sort ?cmp ?wc"
  have d: "distinct (map fst ?wc)"
    and lookup: "\<And>c. map_get ?wc c
                   = (if wrong_count history c = 0 then None else Some (wrong_count history c))"
    and seen: "sorted_wrt (\<lambda>a b. first_wrong history a < first_wrong history b) (map fst ?wc)"
    using wrong_loop_result [of history] by blast+
  show "distinct ranked"
    using d by (simp add: ranked_def distinct_array_sort)
  have "c \<in> fst ` set ?wc \<longleftrightarrow> 1 \<le> wrong_count history c" for c
    using lookup [of c] map_get_None_iff [of ?wc c] by (auto split: if_splits)
  then show "set ranked = {c. 1 \<le> wrong_count history c}"
    by (auto simp: ranked_def set_array_sort)
  have count: "snd p = wrong_count history (fst p)" if "p \<in> set ?wc" for p
  proof -
    have "map_get ?wc (fst p) = Some (snd p)"
      using that by (intro mem_map_get [OF d]) simp
    then show ?thesis
      using lookup [of "fst p"] by (auto split: if_splits)
  qed
  have "sorted_wrt (\<lambda>p q. first_wrong history (fst p) < first_wrong history (fst q)) ?wc"
    using seen by (simp add: sorted_wrt_map)
  then have "sorted_wrt (\<lambda>p q. snd q < snd p
                \<or> (snd p = snd q \<and> first_wrong history (fst p) < first_wrong history (fst q))) ?S"
    by (rule sorted_array_sort)
  then have "sorted_wrt (\<lambda>p q. wrong_count history (fst q) < wrong_count history (fst p)
                \<or> (wrong_count history (fst p) = wrong_count history (fst q)
                    \<and> first_wrong history (fst p) < first_wrong history (fst q))) ?S"
    by (rule sorted_wrt_mono_rel [rotated]) (auto simp: set_array_sort count)
  then show "sorted_wrt (\<lambda>a b. wrong_count history b < wrong_count history a
                        \<or> (wrong_count history a = wrong_count history b
                            \<and> first_wrong history a < first_wrong history b)) ranked"
    by (simp add: ranked_def sorted_wrt_map)
qed

text \<open>
  Claim C9, as stated, fails on the order of ties: a card whose first entry in the history
  is not judged Wrong comes after a card judged Wrong earlier, although it occurs first
  in the history. Here cards 1 and 2 are both judged Wrong once, card 1 occurs first, and
  card 2 is listed first.
\<close>

theorem computeProgress_tie_order_counterexample:
  "hardestCards (computeProgress [] []
      [\<lparr>card_ref = 1::nat, difficulty = Easy\<rparr>, \<lparr>card_ref = 2, difficulty = Wrong\<rparr>,
       \<lparr>card_ref = 1, difficulty = Wrong\<rparr>]) = [2, 1]
   \<and> wrong_count
      [\<lparr>card_ref = 1::nat, difficulty = Easy\<rparr>, \<lparr>card_ref = 2, difficulty = Wrong\<rparr>,
       \<lparr>card_ref = 1, difficulty = Wrong\<rparr>] 1 = 1
   \<and> wrong_count
      [\<lparr>card_ref = 1::nat, difficulty = Easy\<rparr>, \<lparr>card_ref = 2, difficulty = Wrong\<rparr>,
       \<lparr>card_ref = 1, difficulty = Wrong\<rparr>] 2 = 1
   \<and> first_occurrence
      [\<lparr>card_ref = 1::nat, difficulty = Easy\<rparr>, \<lparr>card_ref = 2, difficulty = Wrong\<rparr>,
       \<lparr>card_ref = 1, difficulty = Wrong\<rparr>] 1 = 0
   \<and> first_occurrence
      [\<lparr>card_ref = 1::nat, difficulty = Easy\<rparr>, \<lparr>card_ref = 2, difficulty = Wrong\<rparr>,
       \<lparr>card_ref = 1, difficulty = Wrong\<rparr>] 2 = 1"
  by (simp add: computeProgress_def Let_def array_sort_def wrong_count_def first_occurrence_def)

text \<open>
  Claim C9, amended. For a map with distinct keys: the total is the sum of the sizes of
  the stored sets; the per-bucket counts pair every stored bucket number with the size of
  its set; the success rate is the number of entries judged Easy or Hard over the number
  of entries, and 0 for the empty history; and the hardest cards are the first three of
  the ranking of all cards judged Wrong at least once, by descending number of Wrong
  judgments, ties in the order of the cards' first entries judged Wrong.
\<close>

theorem computeProgress_report:
  assumes keys: "distinct (map_keys buckets)"
  shows "totalCards (computeProgress h buckets history)
           = sum_list (map (\<lambda>(k, s). set_size h s) buckets)
       \<and> cardsByBucket (computeProgress h buckets history)
           = map (\<lambda>(k, s). (k, set_size h s)) buckets
       \<and> successRate (computeProgress h buckets history)
           = (if history = [] then 0
              else real (length (filter (\<lambda>e. difficulty e = Easy \<or> difficulty e = Hard) history))
                     / real (length history))
       \<and> (\<exists>ranked. hardestCards (computeProgress h buckets history) = take 3 ranked
             \<and> distinct ranked
             \<and> set ranked = {c. 1 \<le> wrong_count history c}
             \<and> sorted_wrt (\<lambda>a b. wrong_count history b < wrong_count history a
                               \<or> (wrong_count history a = wrong_count history b
                                   \<and> first_wrong history a < first_wrong history b)) ranked)"
proof -
  have counts: "count_loop h buckets 0 []
                  = (sum_list (map (\<lambda>(k, s). set_size h s) buckets),
                     map (\<lambda>(k, s). (k, set_size h s)) buckets)"
    using keys count_loop_result [of "[]" buckets h 0] by (simp add: map_keys_def)
  have total: "totalCards (computeProgress h buckets history)
                 = sum_list (map (\<lambda>(k, s). set_size h s) buckets)"
    by (simp add: computeProgress_def counts Let_def)
  have by_bucket: "cardsByBucket (computeProgress h buckets history)
                     = map (\<lambda>(k, s). (k, set_size h s)) buckets"
    by (simp add: computeProgress_def counts Let_def)
  have rate: "successRate (computeProgress h buckets history)
           = (if history = [] then 0
              else real (length (filter (\<lambda>e. difficulty e = Easy \<or> difficulty e = Hard) history))
                     / real (length history))"
    by (simp add: computeProgress_def counts Let_def success_loop_result)
  have hardest: "hardestCards (computeProgress h buckets history)
      = take 3 (map fst (array_sort (\<lambda>a b. int (snd b) - int (snd a)) (wrong_loop history [])))"
    by (simp add: computeProgress_def counts Let_def take_map)
  from total by_bucket rate hardest hardest_ranked [of history] show ?thesis
    by blast
qed

theorem computeProgress_report_witness:
  "totalCards (computeProgress [[1], [2::nat]] [(0, 0), (1, 1)]
      [\<lparr>card_ref = 1, difficulty = Easy\<rparr>, \<lparr>card_ref = 1, difficulty = Wrong\<rparr>,
       \<lparr>card_ref = 2, difficulty = Hard\<rparr>, \<lparr>card_ref = 2, difficulty = Wrong\<rparr>]) = 2
   \<and> cardsByBucket (computeProgress [[1], [2::nat]] [(0, 0), (1, 1)]
      [\<lparr>card_ref = 1, difficulty = Easy\<rparr>, \<lparr>card_ref = 1, difficulty = Wrong\<rparr>,
       \<lparr>card_ref = 2, difficulty = Hard\<rparr>, \<lparr>card_ref = 2, difficulty = Wrong\<rparr>]) = [(0, 1), (1, 1)]
   \<and> successRate (computeProgress [[1], [2::nat]] [(0, 0), (1, 1)]
      [\<lparr>card_ref = 1, difficulty = Easy\<rparr>, \<lparr>card_ref = 1, difficulty = Wrong\<rparr>,
       \<lparr>card_ref = 2, difficulty = Hard\<rparr>, \<lparr>card_ref = 2, difficulty = Wrong\<rparr>]) = 1 / 2
   \<and> hardestCards (computeProgress [[1], [2::nat]] [(0, 0), (1, 1)]
      [\<lparr>card_ref = 1, difficulty = Easy\<rparr>, \<lparr>card_ref = 1, difficulty = Wrong\<rparr>,
       \<lparr>card_ref = 2, difficulty = Hard\<rparr>, \<lparr>card_ref = 2, difficulty = Wrong\<rparr>]) = [1, 2]"
proof -
  let ?history = "[\<lparr>card_ref = 1::nat, difficulty = Easy\<rparr>, \<lparr>card_ref = 1, difficulty = Wrong\<rparr>,
       \<lparr>card_ref = 2, difficulty = Hard\<rparr>, \<lparr>card_ref = 2, difficulty = Wrong\<rparr>]"
  have keys: "distinct (map_keys [(0::nat, 0::nat), (1, 1)])"
    by (simp add: map_keys_def)
  have hardest: "hardestCards (computeProgress [[1], [2::nat]] [(0, 0), (1, 1)] ?history) = [1, 2]"
    by (simp add: computeProgress_def Let_def array_sort_def set_size_def)
  from computeProgress_report [OF keys, of "[[1], [2::nat]]" ?history] hardest show ?thesis
    by (simp add: set_size_def)
qed

end
